theory Spec2Isabelle
  imports Main
begin

section \<open>Python values\<close>

text \<open>
  The transport hands \<open>search_type\<close> a decoded JSON document, or Python's \<open>None\<close>.
  \<open>JNull\<close> is \<open>None\<close>. A dictionary is the list of its items in insertion order; where
  a key is repeated the first binding is the dictionary's. Numbers are integers.
\<close>

datatype json =
    JNull
  | JBool bool
  | JInt int
  | JStr string
  | JList "json list"
  | JObj "(string \<times> json) list"

text \<open>
  The exceptions that can leave \<open>search_type\<close>: the one it raises itself (with the
  response and the message it is raised with), the two that Python raises on a value
  of the wrong shape, and whatever the transport raises.
\<close>

datatype exn =
    InvalidResponseException json string
  | AttributeError
  | TypeError
  | TransportError string

text \<open>\<open>x.get(key, default)\<close>: only a dictionary has the method.\<close>

fun dict_get :: "json \<Rightarrow> string \<Rightarrow> json \<Rightarrow> exn + json" where
  "dict_get (JObj kvs) k d = Inr (case map_of kvs k of None \<Rightarrow> d | Some v \<Rightarrow> v)"
| "dict_get _ k d = Inl AttributeError"

text \<open>The keys of a dictionary, each once, in insertion order.\<close>

fun dict_keys :: "(string \<times> json) list \<Rightarrow> string list" where
  "dict_keys [] = []"
| "dict_keys ((k, v) # kvs) = k # filter (\<lambda>k'. k' \<noteq> k) (dict_keys kvs)"

text \<open>
  \<open>for x in v\<close>: a list gives its elements, a string its characters (here one per
  \<open>char\<close>, which is Python's count for ASCII text), a dictionary its keys; \<open>None\<close>, a
  boolean and a number are not iterable.
\<close>

fun py_iter :: "json \<Rightarrow> exn + json list" where
  "py_iter (JList xs) = Inr xs"
| "py_iter (JStr s) = Inr (map (\<lambda>c. JStr [c]) s)"
| "py_iter (JObj kvs) = Inr (map JStr (dict_keys kvs))"
| "py_iter _ = Inl TypeError"

text \<open>Truth value of a Python object, as \<open>not v\<close> tests it.\<close>

fun truthy :: "json \<Rightarrow> bool" where
  "truthy JNull = False"
| "truthy (JBool b) = b"
| "truthy (JInt i) = (i \<noteq> 0)"
| "truthy (JStr s) = (s \<noteq> [])"
| "truthy (JList xs) = (xs \<noteq> [])"
| "truthy (JObj kvs) = (kvs \<noteq> [])"

section \<open>Requests, result items and the log of a session\<close>

record request =
  url :: string
  params :: "(string \<times> json) list"
  headers :: json
  session_index :: json

text \<open>
  Modelled from the spec: the entity constructors \<open>parent.user\<close>, \<open>parent.video\<close> and
  \<open>parent.keyword_suggestion\<close> are collaborators outside \<open>search.py\<close>. A result item is
  a reference that holds the arguments the constructor is called with: \<open>sec_uid\<close>,
  \<open>user_id\<close> and \<open>username\<close> for a user, none for a video, \<open>keyword\<close> for a suggestion.
\<close>

datatype item =
    UserRef json json json
  | VideoRef
  | KeywordSuggestionRef json

text \<open>
  One iteration of the \<open>while\<close> loop leaves one entry in the log: the request that was
  sent, what the transport answered (this is also what \<open>print\<close> writes), and the items
  yielded from that page, in order.
\<close>

record page =
  sent :: request
  received :: "exn + json"
  emitted :: "item list"

datatype outcome = Returned | Raised exn

section \<open>The page decoder\<close>

text \<open>\<open>user.get("user_info").get(key)\<close>, lines 158 to 160.\<close>

definition user_info_get :: "json \<Rightarrow> string \<Rightarrow> exn + json" where
  "user_info_get user k =
     (case dict_get user ''user_info'' JNull of
        Inl e \<Rightarrow> Inl e
      | Inr info \<Rightarrow> dict_get info k JNull)"

definition user_ref :: "json \<Rightarrow> exn + item" where
  "user_ref user =
     (case user_info_get user ''sec_uid'' of
        Inl e \<Rightarrow> Inl e
      | Inr sec_uid \<Rightarrow>
          (case user_info_get user ''user_id'' of
             Inl e \<Rightarrow> Inl e
           | Inr uid \<Rightarrow>
               (case user_info_get user ''unique_id'' of
                  Inl e \<Rightarrow> Inl e
                | Inr username \<Rightarrow> Inr (UserRef sec_uid uid username))))"

definition video_ref :: "json \<Rightarrow> exn + item" where
  "video_ref video = Inr VideoRef"

definition keyword_ref :: "json \<Rightarrow> exn + item" where
  "keyword_ref keyword = Inr (KeywordSuggestionRef keyword)"

text \<open>
  The body of a \<open>for\<close> loop that yields one item per record: the items yielded so far,
  and the exception that ended the loop early, if any.
\<close>

fun emit_all :: "(json \<Rightarrow> exn + item) \<Rightarrow> json list \<Rightarrow> item list \<times> exn option" where
  "emit_all mk [] = ([], None)"
| "emit_all mk (r # rs) =
     (case mk r of
        Inl e \<Rightarrow> ([], Some e)
      | Inr it \<Rightarrow> (case emit_all mk rs of (its, err) \<Rightarrow> (it # its, err)))"

text \<open>\<open>for r in resp.get(field, []): yield mk(r)\<close>.\<close>

definition emit_list :: "json \<Rightarrow> string \<Rightarrow> (json \<Rightarrow> exn + item) \<Rightarrow> item list \<times> exn option" where
  "emit_list resp field mk =
     (case dict_get resp field (JList []) of
        Inl e \<Rightarrow> ([], Some e)
      | Inr l \<Rightarrow>
          (case py_iter l of
             Inl e \<Rightarrow> ([], Some e)
           | Inr rs \<Rightarrow> emit_all mk rs))"

text \<open>Two statements in sequence: the second runs only if the first did not raise.\<close>

definition then_emit :: "item list \<times> exn option \<Rightarrow> item list \<times> exn option \<Rightarrow> item list \<times> exn option" where
  "then_emit a b =
     (case a of
        (xs, Some e) \<Rightarrow> (xs, Some e)
      | (xs, None) \<Rightarrow> (case b of (ys, err) \<Rightarrow> (xs @ ys, err)))"

text \<open>Lines 156 to 178: the three \<open>if obj_type == ...\<close> blocks, one after the other.\<close>

definition page_items :: "string \<Rightarrow> json \<Rightarrow> item list \<times> exn option" where
  "page_items obj_type resp =
     then_emit
       (if obj_type = ''user/full'' then emit_list resp ''user_list'' user_ref else ([], None))
       (then_emit
          (if obj_type = ''general/full'' then emit_list resp ''video_list'' video_ref else ([], None))
          (if obj_type = ''general/preview'' then emit_list resp ''suggestion_list'' keyword_ref
           else ([], None)))"

section \<open>The request builder\<close>

definition web_search_code :: string where
  \<open>web_search_code =
     ''{"tiktok":{"client_params_x":{"search_engine":{"ies_mt_user_live_video_card_use_libra":1,"mt_search_general_user_live_card":1}},"search_server":{}}}''\<close>

definition search_params :: "string \<Rightarrow> json \<Rightarrow> (string \<times> json) list" where
  "search_params search_term cursor =
     [(''keyword'', JStr search_term),
      (''cursor'', cursor),
      (''from_page'', JStr ''search''),
      (''web_search_code'', JStr web_search_code)]"

text \<open>\<open>kwargs.get(key)\<close> on the keyword arguments of the call.\<close>

definition kwargs_get :: "(string \<times> json) list \<Rightarrow> string \<Rightarrow> json" where
  "kwargs_get kwargs k = (case map_of kwargs k of None \<Rightarrow> JNull | Some v \<Rightarrow> v)"

definition search_request :: "string \<Rightarrow> string \<Rightarrow> json \<Rightarrow> (string \<times> json) list \<Rightarrow> request" where
  "search_request search_term obj_type cursor kwargs =
     \<lparr> url = ''https://www.tiktok.com/api/search/'' @ obj_type @ ''/'',
       params = search_params search_term cursor,
       headers = kwargs_get kwargs ''headers'',
       session_index = kwargs_get kwargs ''session_index'' \<rparr>"

section \<open>The pagination driver\<close>

text \<open>
  The transport \<open>parent.make_request\<close> is a parameter: its answer to the \<open>n\<close>-th call of
  a session (counted from 0) with a given request is a decoded document, \<open>None\<close>, or an
  exception.
\<close>

type_synonym transport = "nat \<Rightarrow> request \<Rightarrow> exn + json"

text \<open>
  One pass through the body of \<open>while found < count\<close> (lines 136 to 183): the log entry,
  and either how the generator ended or the \<open>found\<close> and \<open>cursor\<close> the next pass
  starts with.
\<close>

definition search_page ::
  "transport \<Rightarrow> string \<Rightarrow> string \<Rightarrow> (string \<times> json) list \<Rightarrow> nat \<Rightarrow> int \<Rightarrow> json
     \<Rightarrow> page \<times> (outcome + int \<times> json)" where
  "search_page make_request search_term obj_type kwargs n found cursor =
     (let req = search_request search_term obj_type cursor kwargs in
      case make_request n req of
        Inl e \<Rightarrow> (\<lparr>sent = req, received = Inl e, emitted = []\<rparr>, Inl (Raised e))
      | Inr resp \<Rightarrow>
          (case resp of
             JNull \<Rightarrow>
               (\<lparr>sent = req, received = Inr resp, emitted = []\<rparr>,
                Inl (Raised (InvalidResponseException resp ''TikTok returned an invalid response.'')))
           | _ \<Rightarrow>
               (case page_items obj_type resp of
                  (its, Some e) \<Rightarrow>
                    (\<lparr>sent = req, received = Inr resp, emitted = its\<rparr>, Inl (Raised e))
                | (its, None) \<Rightarrow>
                    (let p = \<lparr>sent = req, received = Inr resp, emitted = its\<rparr> in
                     case dict_get resp ''has_more'' (JBool False) of
                       Inl e \<Rightarrow> (p, Inl (Raised e))
                     | Inr has_more \<Rightarrow>
                         if \<not> truthy has_more then (p, Inl Returned)
                         else
                           (case dict_get resp ''cursor'' JNull of
                              Inl e \<Rightarrow> (p, Inl (Raised e))
                            | Inr cursor' \<Rightarrow> (p, Inr (found + int (length its), cursor')))))))"

text \<open>
  The loop. Nothing bounds the number of pages (a transport that always answers
  \<open>has_more\<close> with an empty list keeps it running), so the recursion is on the number
  of passes still allowed; the outcome \<open>None\<close> says that the generator has not ended
  within them, and the log is then what it has done so far. The generator is lazy: the
  log is what a consumer sees that keeps asking for the next item.
\<close>

fun search_loop ::
  "nat \<Rightarrow> transport \<Rightarrow> string \<Rightarrow> string \<Rightarrow> int \<Rightarrow> (string \<times> json) list \<Rightarrow> nat \<Rightarrow> int \<Rightarrow> json
     \<Rightarrow> page list \<times> outcome option" where
  "search_loop 0 make_request search_term obj_type count kwargs n found cursor =
     (if found < count then ([], None) else ([], Some Returned))"
| "search_loop (Suc fuel) make_request search_term obj_type count kwargs n found cursor =
     (if found < count then
        (case search_page make_request search_term obj_type kwargs n found cursor of
           (p, Inl out) \<Rightarrow> ([p], Some out)
         | (p, Inr (found', cursor')) \<Rightarrow>
             (case search_loop fuel make_request search_term obj_type count kwargs (Suc n) found' cursor' of
                (ps, out) \<Rightarrow> (p # ps, out)))
      else ([], Some Returned))"

definition search_type ::
  "nat \<Rightarrow> transport \<Rightarrow> string \<Rightarrow> string \<Rightarrow> int \<Rightarrow> json \<Rightarrow> (string \<times> json) list
     \<Rightarrow> page list \<times> outcome option" where
  "search_type fuel make_request search_term obj_type count cursor kwargs =
     search_loop fuel make_request search_term obj_type count kwargs 0 0 cursor"

section \<open>The public entry points\<close>

text \<open>
  The three entry points call
  \<open>Search.search_type(search_term, kind, count=count, cursor=cursor, **kwargs)\<close>:
  their own extra keyword arguments are passed on next to the kind, which is given by
  position. Python binds the arguments before the generator is made, and refuses a
  keyword \<open>obj_type\<close> among them with a \<open>TypeError\<close> (a second value for that
  parameter); then nothing of \<open>search_type\<close> runs. The other parameter names cannot be
  among the extra keyword arguments: the entry point binds them itself.
\<close>

definition call_search_type ::
  "nat \<Rightarrow> transport \<Rightarrow> string \<Rightarrow> string \<Rightarrow> int \<Rightarrow> json \<Rightarrow> (string \<times> json) list
     \<Rightarrow> page list \<times> outcome option" where
  "call_search_type fuel make_request search_term obj_type count cursor kwargs =
     (case map_of kwargs ''obj_type'' of
        Some v \<Rightarrow> ([], Some (Raised TypeError))
      | None \<Rightarrow> search_type fuel make_request search_term obj_type count cursor kwargs)"

definition users ::
  "nat \<Rightarrow> transport \<Rightarrow> string \<Rightarrow> int \<Rightarrow> json \<Rightarrow> (string \<times> json) list \<Rightarrow> page list \<times> outcome option" where
  "users fuel make_request search_term count cursor kwargs =
     call_search_type fuel make_request search_term ''user/full'' count cursor kwargs"

definition general_warning :: string where
  "general_warning =
     ''TikTok only allows a maximum of 9 videos to be returned per search without login.''"

text \<open>
  \<open>general\<close> also returns what it hands to \<open>parent.logger.warning\<close>; the warning comes
  before the call of \<open>search_type\<close>.
\<close>

definition general ::
  "nat \<Rightarrow> transport \<Rightarrow> string \<Rightarrow> int \<Rightarrow> json \<Rightarrow> (string \<times> json) list
     \<Rightarrow> string list \<times> page list \<times> outcome option" where
  "general fuel make_request search_term count cursor kwargs =
     ((if count > 9 then [general_warning] else []),
      call_search_type fuel make_request search_term ''general/full'' count cursor kwargs)"

definition keyword_suggestion ::
  "nat \<Rightarrow> transport \<Rightarrow> string \<Rightarrow> int \<Rightarrow> json \<Rightarrow> (string \<times> json) list \<Rightarrow> page list \<times> outcome option" where
  "keyword_suggestion fuel make_request search_term count cursor kwargs =
     call_search_type fuel make_request search_term ''general/preview'' count cursor kwargs"

section \<open>What a log shows\<close>

definition calls :: "page list \<Rightarrow> request list" where
  "calls ps = map sent ps"

definition yielded :: "page list \<Rightarrow> item list" where
  "yielded ps = concat (map emitted ps)"

text \<open>The response field that holds the records of a search kind.\<close>

definition list_field :: "string \<Rightarrow> string option" where
  "list_field obj_type =
     (if obj_type = ''user/full'' then Some ''user_list''
      else if obj_type = ''general/full'' then Some ''video_list''
      else if obj_type = ''general/preview'' then Some ''suggestion_list''
      else None)"

text \<open>
  The batch size of a page: how many records the \<open>for\<close> loop of the kind finds in
  the answer; none where there is no answer or nothing to iterate.
\<close>

definition batch_size :: "string \<Rightarrow> exn + json \<Rightarrow> nat" where
  "batch_size obj_type r =
     (case r of
        Inl e \<Rightarrow> 0
      | Inr resp \<Rightarrow>
          (case list_field obj_type of
             None \<Rightarrow> 0
           | Some field \<Rightarrow>
               (case dict_get resp field (JList []) of
                  Inl e \<Rightarrow> 0
                | Inr l \<Rightarrow> (case py_iter l of Inl e \<Rightarrow> 0 | Inr rs \<Rightarrow> length rs))))"

text \<open>The answer is a dictionary whose \<open>has_more\<close> is true.\<close>

definition reports_more :: "exn + json \<Rightarrow> bool" where
  "reports_more r =
     (case r of
        Inl e \<Rightarrow> False
      | Inr resp \<Rightarrow>
          (case dict_get resp ''has_more'' (JBool False) of
             Inl e \<Rightarrow> False
           | Inr has_more \<Rightarrow> truthy has_more))"

text \<open>
  The answer reports \<open>has_more\<close> and decodes, without an exception, to at least one
  item of the kind.
\<close>

definition offers_more :: "string \<Rightarrow> exn + json \<Rightarrow> bool" where
  "offers_more obj_type r =
     (reports_more r \<and>
      (case r of
         Inl e \<Rightarrow> False
       | Inr resp \<Rightarrow> (case page_items obj_type resp of (its, err) \<Rightarrow> its \<noteq> [] \<and> err = None)))"

section \<open>Example upstreams\<close>

definition one_user :: json where
  "one_user =
     JObj [(''user_info'',
            JObj [(''sec_uid'', JStr ''MS4w''), (''user_id'', JStr ''17''),
                  (''unique_id'', JStr ''davidteather'')])]"

text \<open>An upstream that never runs dry: two users on every page, and always \<open>has_more\<close>.\<close>

definition endless_users :: transport where
  "endless_users n r =
     Inr (JObj [(''user_list'', JList [one_user, one_user]),
                (''has_more'', JBool True),
                (''cursor'', JInt (2 * (int n + 1)))])"

text \<open>Two pages: two users and \<open>has_more\<close> with cursor 10, then one user and no more.\<close>

definition two_pages :: transport where
  "two_pages n r =
     (if n = 0 then
        Inr (JObj [(''user_list'', JList [one_user, one_user]),
                   (''has_more'', JBool True),
                   (''cursor'', JInt 10)])
      else
        Inr (JObj [(''user_list'', JList [one_user]), (''has_more'', JBool False)]))"

text \<open>Two users and \<open>has_more\<close> on the first page; \<open>None\<close> instead of a second page.\<close>

definition null_second :: transport where
  "null_second n r =
     (if n = 0 then
        Inr (JObj [(''user_list'', JList [one_user, one_user]),
                   (''has_more'', JBool True),
                   (''cursor'', JInt 10)])
      else Inr JNull)"

text \<open>One user on every page, and no \<open>has_more\<close> field.\<close>

definition single_page :: transport where
  "single_page n r = Inr (JObj [(''user_list'', JList [one_user])])"

text \<open>One user on every page, \<open>has_more\<close>, and no \<open>cursor\<close> field.\<close>

definition no_cursor :: transport where
  "no_cursor n r = Inr (JObj [(''user_list'', JList [one_user]), (''has_more'', JBool True)])"

text \<open>Every answer is the empty dictionary.\<close>

definition empty_payload :: transport where
  "empty_payload n r = Inr (JObj [])"

text \<open>A first page without \<open>user_list\<close> that reports \<open>has_more\<close>, then a page with one user.\<close>

definition listless_first :: transport where
  "listless_first n r =
     (if n = 0 then Inr (JObj [(''has_more'', JBool True), (''cursor'', JInt 10)])
      else Inr (JObj [(''user_list'', JList [one_user])]))"

text \<open>Two video records on every page, and no \<open>has_more\<close> field.\<close>

definition two_videos :: transport where
  "two_videos n r = Inr (JObj [(''video_list'', JList [JNull, JNull])])"

text \<open>A page whose only user record has no \<open>user_info\<close>.\<close>

definition bare_record_page :: json where
  "bare_record_page = JObj [(''user_list'', JList [JObj []])]"

text \<open>An upstream whose every answer is that page.\<close>

definition bare_records :: transport where
  "bare_records n r = Inr bare_record_page"

text \<open>A user record whose \<open>user_info\<close> holds \<open>user_id\<close> only.\<close>

definition partial_user :: json where
  "partial_user = JObj [(''user_info'', JObj [(''user_id'', JStr ''17'')])]"

text \<open>\<open>d.get(key)\<close> on the items of a dictionary: the value, or \<open>None\<close>.\<close>

definition field_or_none :: "(string \<times> json) list \<Rightarrow> string \<Rightarrow> json" where
  "field_or_none kvs k = (case map_of kvs k of None \<Rightarrow> JNull | Some v \<Rightarrow> v)"

section \<open>One pass of the loop\<close>

lemma search_loop_Suc_cases:
  assumes "search_loop (Suc fuel) mr t ot count kw n found cursor = (ps, out)"
  obtains
    (finished) "\<not> found < count" "ps = []" "out = Some Returned"
  | (stop) p oc where "found < count" "search_page mr t ot kw n found cursor = (p, Inl oc)"
      "ps = [p]" "out = Some oc"
  | (more) p found' cursor' ps' where "found < count"
      "search_page mr t ot kw n found cursor = (p, Inr (found', cursor'))"
      "search_loop fuel mr t ot count kw (Suc n) found' cursor' = (ps', out)" "ps = p # ps'"
  using assms by (auto split: if_splits prod.splits sum.splits)

lemma search_page_sent:
  "search_page mr t ot kw n found cursor = (p, x) \<Longrightarrow> sent p = search_request t ot cursor kw"
  by (auto simp: search_page_def Let_def split: sum.splits json.splits prod.splits option.splits if_splits)

lemma search_page_received:
  "search_page mr t ot kw n found cursor = (p, x) \<Longrightarrow> received p = mr n (search_request t ot cursor kw)"
  by (auto simp: search_page_def Let_def split: sum.splits json.splits prod.splits option.splits if_splits)

lemma search_page_emitted:
  "search_page mr t ot kw n found cursor = (p, x) \<Longrightarrow>
   emitted p = (case received p of Inl e \<Rightarrow> [] | Inr JNull \<Rightarrow> [] | Inr resp \<Rightarrow> fst (page_items ot resp))"
  by (auto simp: search_page_def Let_def split: sum.splits json.splits prod.splits option.splits if_splits)

lemma search_page_more:
  assumes "search_page mr t ot kw n found cursor = (p, Inr (found', cursor'))"
  shows "\<exists>resp has_more. received p = Inr resp \<and> resp \<noteq> JNull
           \<and> page_items ot resp = (emitted p, None)
           \<and> dict_get resp ''has_more'' (JBool False) = Inr has_more \<and> truthy has_more
           \<and> dict_get resp ''cursor'' JNull = Inr cursor'
           \<and> found' = found + int (length (emitted p))"
  using assms
  by (auto simp: search_page_def Let_def split: sum.splits json.splits prod.splits option.splits if_splits)

lemma search_page_stop:
  assumes "search_page mr t ot kw n found cursor = (p, Inl oc)"
  shows "(\<exists>e. received p = Inl e \<and> oc = Raised e \<and> emitted p = [])
       \<or> (received p = Inr JNull \<and> emitted p = []
            \<and> oc = Raised (InvalidResponseException JNull ''TikTok returned an invalid response.''))
       \<or> (\<exists>resp e. received p = Inr resp \<and> resp \<noteq> JNull \<and> page_items ot resp = (emitted p, Some e)
            \<and> oc = Raised e)
       \<or> (\<exists>resp e. received p = Inr resp \<and> resp \<noteq> JNull \<and> page_items ot resp = (emitted p, None)
            \<and> dict_get resp ''has_more'' (JBool False) = Inl e \<and> oc = Raised e)
       \<or> (\<exists>resp has_more. received p = Inr resp \<and> resp \<noteq> JNull \<and> page_items ot resp = (emitted p, None)
            \<and> dict_get resp ''has_more'' (JBool False) = Inr has_more \<and> \<not> truthy has_more
            \<and> oc = Returned)
       \<or> (\<exists>resp has_more e. received p = Inr resp \<and> resp \<noteq> JNull \<and> page_items ot resp = (emitted p, None)
            \<and> dict_get resp ''has_more'' (JBool False) = Inr has_more \<and> truthy has_more
            \<and> dict_get resp ''cursor'' JNull = Inl e \<and> oc = Raised e)"
  using assms
  by (auto simp: search_page_def Let_def split: sum.splits json.splits prod.splits option.splits if_splits)

section \<open>The decoder and the batch size\<close>

lemma then_emit_simps [simp]:
  "then_emit ([], None) b = b"
  "then_emit a ([], None) = a"
  by (auto simp: then_emit_def split: prod.splits option.splits)

lemma page_items_field:
  "page_items ot resp =
     (if ot = ''user/full'' then emit_list resp ''user_list'' user_ref
      else if ot = ''general/full'' then emit_list resp ''video_list'' video_ref
      else if ot = ''general/preview'' then emit_list resp ''suggestion_list'' keyword_ref
      else ([], None))"
  by (simp add: page_items_def)

lemma emit_all_length: "length (fst (emit_all mk rs)) \<le> length rs"
  by (induction rs) (auto split: sum.splits prod.splits)

lemma page_items_batch: "length (fst (page_items ot resp)) \<le> batch_size ot (Inr resp)"
  by (auto simp: page_items_field batch_size_def list_field_def emit_list_def emit_all_length
           split: sum.splits)

lemma search_page_batch:
  assumes "search_page mr t ot kw n found cursor = (p, x)"
  shows "length (emitted p) \<le> batch_size ot (received p)"
  using search_page_emitted [OF assms] page_items_batch [of ot]
  by (auto split: sum.splits json.splits)

lemma yielded_Cons [simp]: "yielded (p # ps) = emitted p @ yielded ps"
  by (simp add: yielded_def)

lemma yielded_Nil [simp]: "yielded [] = []"
  by (simp add: yielded_def)

lemma search_loop_bound:
  "search_loop fuel mr t ot count kw n found cursor = (ps, out) \<Longrightarrow> ps \<noteq> [] \<Longrightarrow>
   found + int (length (yielded ps)) \<le> count + int (length (emitted (last ps))) - 1"
proof (induction fuel arbitrary: n found cursor ps out)
  case 0
  then show ?case by (auto split: if_splits)
next
  case (Suc fuel)
  from Suc.prems(1) show ?case
  proof (cases rule: search_loop_Suc_cases)
    case finished
    with Suc.prems show ?thesis by simp
  next
    case (stop p oc)
    then show ?thesis by simp
  next
    case (more p found' cursor' ps')
    from search_page_more [OF more(2)]
    have f': "found' = found + int (length (emitted p))" by blast
    show ?thesis
    proof (cases "ps' = []")
      case True
      with more show ?thesis by simp
    next
      case False
      from Suc.IH [OF more(3) False] f' more(4) False show ?thesis by simp
    qed
  qed
qed

lemma search_loop_last_batch:
  "search_loop fuel mr t ot count kw n found cursor = (ps, out) \<Longrightarrow> p \<in> set ps \<Longrightarrow>
   length (emitted p) \<le> batch_size ot (received p)"
proof (induction fuel arbitrary: n found cursor ps out)
  case 0
  then show ?case by (auto split: if_splits)
next
  case (Suc fuel)
  from Suc.prems(1) show ?case
  proof (cases rule: search_loop_Suc_cases)
    case finished
    with Suc.prems show ?thesis by simp
  next
    case (stop q oc)
    with Suc.prems search_page_batch [OF stop(2)] show ?thesis by simp
  next
    case (more q found' cursor' ps')
    with Suc.prems Suc.IH [OF more(3)] search_page_batch [OF more(2)] show ?thesis by auto
  qed
qed

lemma search_loop_nonempty:
  "search_loop (Suc fuel) mr t ot count kw n found cursor = (ps, out) \<Longrightarrow> found < count \<Longrightarrow> ps \<noteq> []"
  by (erule search_loop_Suc_cases) auto

lemma search_loop_returned:
  "search_loop fuel mr t ot count kw n found cursor = (ps, Some Returned) \<Longrightarrow>
   \<forall>p \<in> set ps. reports_more (received p) \<Longrightarrow> count \<le> found + int (length (yielded ps))"
proof (induction fuel arbitrary: n found cursor ps)
  case 0
  then show ?case by (auto split: if_splits)
next
  case (Suc fuel)
  from Suc.prems(1) show ?case
  proof (cases rule: search_loop_Suc_cases)
    case finished
    then show ?thesis by simp
  next
    case (stop p oc)
    with search_page_stop [OF stop(2)] Suc.prems(2) show ?thesis
      by (auto simp: reports_more_def)
  next
    case (more p found' cursor' ps')
    from search_page_more [OF more(2)]
    have f': "found' = found + int (length (emitted p))" by blast
    from Suc.IH [OF more(3)] Suc.prems(2) more(4) f' show ?thesis by simp
  qed
qed

section \<open>The log of the loop, page by page\<close>

lemma search_loop_head:
  assumes "search_loop fuel mr t ot count kw n found cursor = (ps, out)" and "ps \<noteq> []"
  shows "found < count \<and> (\<exists>x. search_page mr t ot kw n found cursor = (hd ps, x))"
proof (cases fuel)
  case 0
  with assms show ?thesis by (auto split: if_splits)
next
  case (Suc k)
  with assms(1) have "search_loop (Suc k) mr t ot count kw n found cursor = (ps, out)" by simp
  then show ?thesis using assms(2) by (cases rule: search_loop_Suc_cases) auto
qed

lemma search_loop_empty:
  assumes "search_loop fuel mr t ot count kw n found cursor = ([], out)"
  shows "(out = None \<and> fuel = 0 \<and> found < count) \<or> (out = Some Returned \<and> count \<le> found)"
proof (cases fuel)
  case 0
  with assms show ?thesis by (auto split: if_splits)
next
  case (Suc k)
  with assms have "search_loop (Suc k) mr t ot count kw n found cursor = ([], out)" by simp
  then show ?thesis by (cases rule: search_loop_Suc_cases) auto
qed

lemma search_loop_page:
  "search_loop fuel mr t ot count kw n found cursor = (ps, out) \<Longrightarrow> i < length ps \<Longrightarrow>
   \<exists>f c x. f < count \<and> f = found + int (length (yielded (take i ps)))
      \<and> (i = 0 \<longrightarrow> c = cursor)
      \<and> search_page mr t ot kw (n + i) f c = (ps ! i, x)
      \<and> (Suc i < length ps \<longrightarrow>
           (\<exists>f' c'. x = Inr (f', c') \<and> sent (ps ! Suc i) = search_request t ot c' kw))
      \<and> (Suc i = length ps \<longrightarrow>
           (case x of
              Inl oc \<Rightarrow> out = Some oc
            | Inr (f', c') \<Rightarrow> out = None \<or> (out = Some Returned \<and> count \<le> f')))"
proof (induction fuel arbitrary: n found cursor ps out i)
  case 0
  then show ?case by (auto split: if_splits)
next
  case (Suc fuel)
  from Suc.prems(1) show ?case
  proof (cases rule: search_loop_Suc_cases)
    case finished
    with Suc.prems show ?thesis by simp
  next
    case (stop p oc)
    with Suc.prems(2) show ?thesis by auto
  next
    case (more p found' cursor' ps')
    from search_page_more [OF more(2)]
    have f': "found' = found + int (length (emitted p))" by blast
    show ?thesis
    proof (cases i)
      case 0
      show ?thesis
      proof (cases "ps' = []")
        case True
        with more(3) search_loop_empty [of fuel mr t ot count kw "Suc n" found' cursor' out]
        have "out = None \<or> (out = Some Returned \<and> count \<le> found')" by auto
        with 0 more True show ?thesis by auto
      next
        case False
        from search_loop_head [OF more(3) False]
        obtain x where "search_page mr t ot kw (Suc n) found' cursor' = (hd ps', x)" by blast
        from search_page_sent [OF this] False
        have "sent (ps' ! 0) = search_request t ot cursor' kw" by (simp add: hd_conv_nth)
        with 0 more False show ?thesis by auto
      qed
    next
      case (Suc j)
      with Suc.prems(2) more(4) have j: "j < length ps'" by simp
      from Suc.IH [OF more(3) j] Suc more(4) f' show ?thesis
        by (auto simp: add.assoc)
    qed
  qed
qed

section \<open>An upstream that always has more\<close>

lemma dict_get_Inr_obj: "dict_get resp k d = Inr v \<Longrightarrow> \<exists>kvs. resp = JObj kvs"
  by (cases resp) auto

lemma search_page_offers:
  assumes "offers_more ot (mr n (search_request t ot cursor kw))"
  shows "\<exists>p f' c'. search_page mr t ot kw n found cursor = (p, Inr (f', c')) \<and> found < f'"
proof -
  from assms obtain resp its has_more where r: "mr n (search_request t ot cursor kw) = Inr resp"
    and pi: "page_items ot resp = (its, None)" "its \<noteq> []"
    and hm: "dict_get resp ''has_more'' (JBool False) = Inr has_more" "truthy has_more"
    by (auto simp: offers_more_def reports_more_def split: sum.splits prod.splits)
  from dict_get_Inr_obj [OF hm(1)] obtain kvs where "resp = JObj kvs" by blast
  with r pi hm show ?thesis
    by (auto simp: search_page_def Let_def)
qed

lemma search_loop_unlimited:
  assumes "\<forall>n r. offers_more ot (mr n r)"
  shows "nat (count - found) \<le> fuel \<Longrightarrow>
         snd (search_loop fuel mr t ot count kw n found cursor) = Some Returned"
proof (induction fuel arbitrary: n found cursor)
  case 0
  then show ?case by simp
next
  case (Suc fuel)
  show ?case
  proof (cases "found < count")
    case False
    then show ?thesis by simp
  next
    case True
    from assms have "offers_more ot (mr n (search_request t ot cursor kw))" by blast
    from search_page_offers [of ot mr n t cursor kw found] this
    obtain p f' c' where sp: "search_page mr t ot kw n found cursor = (p, Inr (f', c'))"
      and lt: "found < f'" by blast
    from Suc.prems lt True have "nat (count - f') \<le> fuel" by simp
    from Suc.IH [OF this, of "Suc n" c'] sp True show ?thesis
      by (auto split: prod.splits)
  qed
qed

lemma search_loop_asked:
  assumes "search_loop fuel mr t ot count kw n found cursor = (ps, out)" and "p \<in> set ps"
  shows "\<exists>k r. received p = mr k r"
proof -
  from assms(2) obtain i where i: "i < length ps" "p = ps ! i"
    by (auto simp: in_set_conv_nth)
  from search_loop_page [OF assms(1) i(1)]
  obtain f c x where "search_page mr t ot kw (n + i) f c = (ps ! i, x)" by blast
  from search_page_received [OF this] i(2) show ?thesis by blast
qed

lemma endless_offers: "offers_more ''user/full'' (endless_users n r)"
  by (simp add: offers_more_def reports_more_def endless_users_def page_items_field emit_list_def
        user_ref_def user_info_get_def one_user_def)

lemma endless_run:
  "search_type 3 endless_users ''david teather'' ''user/full'' 3 (JInt 0) [] =
     ([\<lparr>sent = search_request ''david teather'' ''user/full'' (JInt 0) [],
        received = endless_users 0 (search_request ''david teather'' ''user/full'' (JInt 0) []),
        emitted = [UserRef (JStr ''MS4w'') (JStr ''17'') (JStr ''davidteather''),
                   UserRef (JStr ''MS4w'') (JStr ''17'') (JStr ''davidteather'')]\<rparr>,
       \<lparr>sent = search_request ''david teather'' ''user/full'' (JInt 2) [],
        received = endless_users 1 (search_request ''david teather'' ''user/full'' (JInt 2) []),
        emitted = [UserRef (JStr ''MS4w'') (JStr ''17'') (JStr ''davidteather''),
                   UserRef (JStr ''MS4w'') (JStr ''17'') (JStr ''davidteather'')]\<rparr>],
      Some Returned)"
  by (simp add: search_type_def numeral_3_eq_3 search_page_def endless_users_def page_items_field
        emit_list_def user_ref_def user_info_get_def one_user_def)

section \<open>C1: how many items a session yields\<close>

text \<open>
  C1. Take a session with \<open>count > 0\<close> that is allowed at least one pass. It fetches at
  least one page, and the number of items yielded over all its pages is at most
  \<open>count + (batch size of the last page - 1)\<close>: the threshold is tested between pages
  only. If the generator has returned and every page fetched reported \<open>has_more\<close>, at
  least \<open>count\<close> items were yielded. And where the upstream always reports \<open>has_more\<close>
  with at least one decodable record, \<open>count\<close> passes are enough for the generator to
  return, with at least \<open>count\<close> items yielded.
\<close>

theorem search_type_yield_bounds:
  assumes "0 < count" and "0 < fuel"
    and "search_type fuel mr t ot count cursor kw = (ps, out)"
  shows "ps \<noteq> []
       \<and> int (length (yielded ps)) \<le> count + (int (batch_size ot (received (last ps))) - 1)
       \<and> (out = Some Returned \<and> (\<forall>p \<in> set ps. reports_more (received p))
            \<longrightarrow> count \<le> int (length (yielded ps)))
       \<and> ((\<forall>n r. offers_more ot (mr n r)) \<and> nat count \<le> fuel
            \<longrightarrow> out = Some Returned \<and> count \<le> int (length (yielded ps)))"
proof -
  from assms(3) have loop: "search_loop fuel mr t ot count kw 0 0 cursor = (ps, out)"
    by (simp add: search_type_def)
  from assms(2) obtain k where k: "fuel = Suc k" by (cases fuel) auto
  from loop k assms(1) have ne: "ps \<noteq> []"
    using search_loop_nonempty [of k mr t ot count kw 0 0 cursor ps out] by simp
  then have "last ps \<in> set ps" by simp
  from search_loop_last_batch [OF loop this] search_loop_bound [OF loop ne]
  have bound: "int (length (yielded ps)) \<le> count + (int (batch_size ot (received (last ps))) - 1)"
    by simp
  have reached: "count \<le> int (length (yielded ps))"
    if "out = Some Returned" "\<forall>p \<in> set ps. reports_more (received p)"
    using search_loop_returned [of fuel mr t ot count kw 0 0 cursor ps] loop that by simp
  have live: "out = Some Returned \<and> count \<le> int (length (yielded ps))"
    if un: "\<forall>n r. offers_more ot (mr n r)" and en: "nat count \<le> fuel"
  proof -
    from search_loop_unlimited [OF un, of count 0 fuel t kw 0 cursor] en loop
    have ret: "out = Some Returned" by simp
    have "reports_more (received p)" if "p \<in> set ps" for p
      using search_loop_asked [OF loop that] un by (auto simp: offers_more_def)
    with reached ret show ?thesis by blast
  qed
  from ne bound reached live show ?thesis by blast
qed

theorem search_type_yield_bounds_witness:
  "(0::int) < 3 \<and> (0::nat) < 3 \<and> nat 3 \<le> (3::nat)
   \<and> (\<forall>n r. offers_more ''user/full'' (endless_users n r))
   \<and> snd (search_type 3 endless_users ''david teather'' ''user/full'' 3 (JInt 0) []) = Some Returned
   \<and> fst (search_type 3 endless_users ''david teather'' ''user/full'' 3 (JInt 0) []) \<noteq> []
   \<and> (3::int) \<le> int (length (yielded
         (fst (search_type 3 endless_users ''david teather'' ''user/full'' 3 (JInt 0) []))))
   \<and> int (length (yielded
         (fst (search_type 3 endless_users ''david teather'' ''user/full'' 3 (JInt 0) []))))
       \<le> 3 + (int (batch_size ''user/full'' (received (last
         (fst (search_type 3 endless_users ''david teather'' ''user/full'' 3 (JInt 0) []))))) - 1)"
proof -
  have pos: "(0::int) < 3" "(0::nat) < 3" by simp_all
  have offers: "\<forall>n r. offers_more ''user/full'' (endless_users n r)"
    by (simp add: endless_offers)
  from search_type_yield_bounds [OF pos endless_run] offers show ?thesis
    by (simp add: endless_run)
qed

section \<open>More on one pass, and on the log\<close>

lemma search_page_null:
  assumes "search_page mr t ot kw n found cursor = (p, x)" and "received p = Inr JNull"
  shows "x = Inl (Raised (InvalidResponseException JNull ''TikTok returned an invalid response.''))"
    and "emitted p = []"
  using assms
  by (auto simp: search_page_def Let_def split: sum.splits json.splits prod.splits option.splits if_splits)

lemma search_page_no_more:
  assumes "search_page mr t ot kw n found cursor = (p, x)" and "\<not> reports_more (received p)"
  shows "\<exists>oc. x = Inl oc"
  using assms
  by (auto simp: search_page_def Let_def reports_more_def
           split: sum.splits json.splits prod.splits option.splits if_splits)

lemma search_page_returns:
  assumes "search_page mr t ot kw n found cursor = (p, x)" and "received p = Inr (JObj kvs)"
    and "\<not> reports_more (received p)" and "snd (page_items ot (JObj kvs)) = None"
  shows "x = Inl Returned"
  using assms
  by (auto simp: search_page_def Let_def reports_more_def
           split: sum.splits json.splits prod.splits option.splits if_splits)

lemma search_loop_running:
  "search_loop fuel mr t ot count kw n found cursor = (ps, None) \<Longrightarrow> length ps = fuel"
proof (induction fuel arbitrary: n found cursor ps)
  case 0
  then show ?case by (auto split: if_splits)
next
  case (Suc fuel)
  from Suc.prems show ?case
  proof (cases rule: search_loop_Suc_cases)
    case (more p found' cursor' ps')
    with Suc.IH [OF more(3)] show ?thesis by simp
  qed simp_all
qed

lemma yielded_take_Suc:
  "i < length ps \<Longrightarrow> yielded (take (Suc i) ps) = yielded (take i ps) @ emitted (ps ! i)"
  by (simp add: yielded_def take_Suc_conv_app_nth)

lemma search_request_params [simp]:
  "params (search_request t ot c kw) = search_params t c"
  by (simp add: search_request_def)

lemma search_params_cursor [simp]: "map_of (search_params t c) ''cursor'' = Some c"
  by (simp add: search_params_def)

lemma two_pages_run:
  "search_type 5 two_pages ''david teather'' ''user/full'' 15 (JInt 0) [] =
     ([\<lparr>sent = search_request ''david teather'' ''user/full'' (JInt 0) [],
        received = two_pages 0 (search_request ''david teather'' ''user/full'' (JInt 0) []),
        emitted = [UserRef (JStr ''MS4w'') (JStr ''17'') (JStr ''davidteather''),
                   UserRef (JStr ''MS4w'') (JStr ''17'') (JStr ''davidteather'')]\<rparr>,
       \<lparr>sent = search_request ''david teather'' ''user/full'' (JInt 10) [],
        received = two_pages 1 (search_request ''david teather'' ''user/full'' (JInt 10) []),
        emitted = [UserRef (JStr ''MS4w'') (JStr ''17'') (JStr ''davidteather'')]\<rparr>],
      Some Returned)"
  by (simp add: search_type_def eval_nat_numeral search_page_def two_pages_def page_items_field
        emit_list_def user_ref_def user_info_get_def one_user_def)

section \<open>C2: where the next cursor comes from\<close>

text \<open>
  C2. In every session, for every page \<open>N\<close> that is followed by another, the answer to
  page \<open>N\<close> is a dictionary, and the \<open>cursor\<close> parameter of the request for page \<open>N + 1\<close>
  is the value of that dictionary's \<open>cursor\<close> field (\<open>None\<close> where it has none): the
  driver computes no cursor of its own.
\<close>

theorem search_type_next_cursor:
  assumes "search_type fuel mr t ot count cursor kw = (ps, out)" and "Suc i < length ps"
  shows "\<exists>kvs. received (ps ! i) = Inr (JObj kvs)
           \<and> map_of (params (sent (ps ! Suc i))) ''cursor''
               = Some (case map_of kvs ''cursor'' of None \<Rightarrow> JNull | Some c \<Rightarrow> c)"
proof -
  from assms(1) have loop: "search_loop fuel mr t ot count kw 0 0 cursor = (ps, out)"
    by (simp add: search_type_def)
  from assms(2) have i: "i < length ps" by simp
  from search_loop_page [OF loop i] assms(2)
  obtain f c f' c' where sp: "search_page mr t ot kw (0 + i) f c = (ps ! i, Inr (f', c'))"
    and nx: "sent (ps ! Suc i) = search_request t ot c' kw" by auto
  from search_page_more [OF sp] obtain resp where r: "received (ps ! i) = Inr resp"
    and c': "dict_get resp ''cursor'' JNull = Inr c'" by blast
  from dict_get_Inr_obj [OF c'] obtain kvs where "resp = JObj kvs" by blast
  with r c' nx show ?thesis by auto
qed

theorem search_type_next_cursor_witness:
  "Suc 0 < length (fst (search_type 5 two_pages ''david teather'' ''user/full'' 15 (JInt 0) []))
   \<and> received (fst (search_type 5 two_pages ''david teather'' ''user/full'' 15 (JInt 0) []) ! 0)
       = Inr (JObj [(''user_list'', JList [one_user, one_user]), (''has_more'', JBool True),
                    (''cursor'', JInt 10)])
   \<and> map_of (params (sent
         (fst (search_type 5 two_pages ''david teather'' ''user/full'' 15 (JInt 0) []) ! Suc 0)))
         ''cursor'' = Some (JInt 10)"
proof -
  have two: "Suc 0 < length [a, b]" for a b :: page by simp
  from search_type_next_cursor [OF two_pages_run two] show ?thesis
    by (simp add: two_pages_run two_pages_def)
qed

section \<open>Any page of a session\<close>

lemma calls_length [simp]: "length (calls ps) = length ps"
  by (simp add: calls_def)

lemma search_type_loop:
  "search_type fuel mr t ot count cursor kw = (ps, out) \<Longrightarrow>
   search_loop fuel mr t ot count kw 0 0 cursor = (ps, out)"
  by (simp add: search_type_def)

lemma search_loop_pageE:
  assumes "search_loop fuel mr t ot count kw n found cursor = (ps, out)" and "i < length ps"
  obtains f c x where "search_page mr t ot kw (n + i) f c = (ps ! i, x)"
    and "f < count" and "f = found + int (length (yielded (take i ps)))"
    and "i = 0 \<Longrightarrow> c = cursor"
    and "\<And>oc. x = Inl oc \<Longrightarrow> length ps = Suc i \<and> out = Some oc"
    and "\<And>f' c'. x = Inr (f', c') \<Longrightarrow>
           (Suc i < length ps \<and> sent (ps ! Suc i) = search_request t ot c' kw)
         \<or> (Suc i = length ps \<and> (out = None \<or> (out = Some Returned \<and> count \<le> f')))"
proof -
  from search_loop_page [OF assms]
  obtain f c x where sp: "search_page mr t ot kw (n + i) f c = (ps ! i, x)"
    and f: "f < count" "f = found + int (length (yielded (take i ps)))" "i = 0 \<longrightarrow> c = cursor"
    and more: "Suc i < length ps \<longrightarrow>
           (\<exists>f' c'. x = Inr (f', c') \<and> sent (ps ! Suc i) = search_request t ot c' kw)"
    and last: "Suc i = length ps \<longrightarrow>
           (case x of Inl oc \<Rightarrow> out = Some oc
            | Inr (f', c') \<Rightarrow> out = None \<or> (out = Some Returned \<and> count \<le> f'))"
    by blast
  from assms(2) have or: "Suc i < length ps \<or> Suc i = length ps" by auto
  have a: "length ps = Suc i \<and> out = Some oc" if "x = Inl oc" for oc
    using that more last or by auto
  have b: "(Suc i < length ps \<and> sent (ps ! Suc i) = search_request t ot c' kw)
         \<or> (Suc i = length ps \<and> (out = None \<or> (out = Some Returned \<and> count \<le> f')))"
    if "x = Inr (f', c')" for f' c'
    using that more last or by auto
  from sp f a b that show thesis by blast
qed

lemma search_page_continues:
  assumes "search_page mr t ot kw n found cursor = (p, x)" and "received p = Inr (JObj kvs)"
    and "reports_more (received p)" and "snd (page_items ot (JObj kvs)) = None"
  shows "x = Inr (found + int (length (emitted p)),
                  (case map_of kvs ''cursor'' of None \<Rightarrow> JNull | Some c \<Rightarrow> c))"
  using assms
  by (auto simp: search_page_def Let_def reports_more_def
           split: sum.splits json.splits prod.splits option.splits if_splits)

lemma emit_list_absent:
  "map_of kvs field = None \<Longrightarrow> emit_list (JObj kvs) field mk = ([], None)"
  by (simp add: emit_list_def)

lemma page_items_absent:
  "list_field ot = Some field \<Longrightarrow> map_of kvs field = None \<Longrightarrow> page_items ot (JObj kvs) = ([], None)"
  by (auto simp: page_items_field list_field_def emit_list_absent split: if_splits)

lemma user_ref_info:
  "map_of kvs ''user_info'' = Some (JObj info) \<Longrightarrow>
   user_ref (JObj kvs) =
     Inr (UserRef (field_or_none info ''sec_uid'') (field_or_none info ''user_id'')
            (field_or_none info ''unique_id''))"
  by (simp add: user_ref_def user_info_get_def field_or_none_def)

section \<open>The example sessions\<close>

lemma one_user_page_items:
  "page_items ''user/full'' (JObj ((''user_list'', JList [one_user]) # kvs)) =
     ([UserRef (JStr ''MS4w'') (JStr ''17'') (JStr ''davidteather'')], None)"
  by (simp add: page_items_field emit_list_def user_ref_def user_info_get_def one_user_def)

lemma null_second_run:
  "search_type 5 null_second ''david teather'' ''user/full'' 15 (JInt 0) [] =
     ([\<lparr>sent = search_request ''david teather'' ''user/full'' (JInt 0) [],
        received = null_second 0 (search_request ''david teather'' ''user/full'' (JInt 0) []),
        emitted = [UserRef (JStr ''MS4w'') (JStr ''17'') (JStr ''davidteather''),
                   UserRef (JStr ''MS4w'') (JStr ''17'') (JStr ''davidteather'')]\<rparr>,
       \<lparr>sent = search_request ''david teather'' ''user/full'' (JInt 10) [],
        received = Inr JNull,
        emitted = []\<rparr>],
      Some (Raised (InvalidResponseException JNull ''TikTok returned an invalid response.'')))"
  by (simp add: search_type_def eval_nat_numeral search_page_def null_second_def page_items_field
        emit_list_def user_ref_def user_info_get_def one_user_def)

lemma single_page_run:
  "search_type 5 single_page ''david teather'' ''user/full'' 10 (JInt 0) [] =
     ([\<lparr>sent = search_request ''david teather'' ''user/full'' (JInt 0) [],
        received = Inr (JObj [(''user_list'', JList [one_user])]),
        emitted = [UserRef (JStr ''MS4w'') (JStr ''17'') (JStr ''davidteather'')]\<rparr>],
      Some Returned)"
  by (simp add: search_type_def eval_nat_numeral search_page_def single_page_def page_items_field
        emit_list_def user_ref_def user_info_get_def one_user_def)

lemma no_cursor_run:
  "search_type 5 no_cursor ''david teather'' ''user/full'' 2 (JInt 0) [] =
     ([\<lparr>sent = search_request ''david teather'' ''user/full'' (JInt 0) [],
        received = Inr (JObj [(''user_list'', JList [one_user]), (''has_more'', JBool True)]),
        emitted = [UserRef (JStr ''MS4w'') (JStr ''17'') (JStr ''davidteather'')]\<rparr>,
       \<lparr>sent = search_request ''david teather'' ''user/full'' JNull [],
        received = Inr (JObj [(''user_list'', JList [one_user]), (''has_more'', JBool True)]),
        emitted = [UserRef (JStr ''MS4w'') (JStr ''17'') (JStr ''davidteather'')]\<rparr>],
      Some Returned)"
  by (simp add: search_type_def eval_nat_numeral search_page_def no_cursor_def page_items_field
        emit_list_def user_ref_def user_info_get_def one_user_def)

lemma listless_first_run:
  "search_type 5 listless_first ''david teather'' ''user/full'' 10 (JInt 0) [] =
     ([\<lparr>sent = search_request ''david teather'' ''user/full'' (JInt 0) [],
        received = Inr (JObj [(''has_more'', JBool True), (''cursor'', JInt 10)]),
        emitted = []\<rparr>,
       \<lparr>sent = search_request ''david teather'' ''user/full'' (JInt 10) [],
        received = Inr (JObj [(''user_list'', JList [one_user])]),
        emitted = [UserRef (JStr ''MS4w'') (JStr ''17'') (JStr ''davidteather'')]\<rparr>],
      Some Returned)"
  by (simp add: search_type_def eval_nat_numeral search_page_def
        listless_first_def page_items_field emit_list_def user_ref_def user_info_get_def
        one_user_def)

section \<open>C3: an answer without the list of the kind\<close>

text \<open>
  C3, as the spec states it, does not hold. With \<open>count = 10\<close> and an upstream whose
  every answer is the empty dictionary, a user search makes one call, yields nothing
  and returns: no exception. And when the first page has no \<open>user_list\<close> but reports
  \<open>has_more\<close>, the session goes on to the next page and yields the user found there.
\<close>

theorem search_type_absent_list_counterexample:
  "search_type 5 empty_payload ''david teather'' ''user/full'' 10 (JInt 0) [] =
     ([\<lparr>sent = search_request ''david teather'' ''user/full'' (JInt 0) [],
        received = Inr (JObj []), emitted = []\<rparr>],
      Some Returned)
   \<and> search_type 5 listless_first ''david teather'' ''user/full'' 10 (JInt 0) [] =
     ([\<lparr>sent = search_request ''david teather'' ''user/full'' (JInt 0) [],
        received = Inr (JObj [(''has_more'', JBool True), (''cursor'', JInt 10)]),
        emitted = []\<rparr>,
       \<lparr>sent = search_request ''david teather'' ''user/full'' (JInt 10) [],
        received = Inr (JObj [(''user_list'', JList [one_user])]),
        emitted = [UserRef (JStr ''MS4w'') (JStr ''17'') (JStr ''davidteather'')]\<rparr>],
      Some Returned)"
  by (simp add: search_type_def eval_nat_numeral search_page_def empty_payload_def
        listless_first_def page_items_field emit_list_def user_ref_def user_info_get_def
        one_user_def)

text \<open>
  C3, amended. For every page fetched: if the transport answered \<open>None\<close>, the generator
  raises \<open>InvalidResponseException\<close>, nothing is yielded from that page and it is the last
  call of the session. If the answer is a dictionary that lacks the list field of the
  kind (the empty dictionary is one), that is no error: the page yields nothing, and
  then either it reports \<open>has_more\<close> and the session goes on to the next page (or has
  used up the passes it was allowed), or it does not and the generator returns.
\<close>

theorem search_type_null_or_absent_list:
  assumes "search_type fuel mr t ot count cursor kw = (ps, out)" and "i < length ps"
  shows "(received (ps ! i) = Inr JNull \<longrightarrow>
            out = Some (Raised (InvalidResponseException JNull ''TikTok returned an invalid response.''))
            \<and> emitted (ps ! i) = [] \<and> length (calls ps) = Suc i)
       \<and> (received (ps ! i) = Inr (JObj kvs) \<and> list_field ot = Some field \<and> map_of kvs field = None
            \<longrightarrow> emitted (ps ! i) = []
              \<and> (if reports_more (received (ps ! i))
                 then Suc i < length ps \<or> (Suc i = length ps \<and> out = None \<and> fuel = Suc i)
                 else Suc i = length ps \<and> out = Some Returned))"
proof -
  note loop = search_type_loop [OF assms(1)]
  from loop assms(2) obtain f c x where sp: "search_page mr t ot kw (0 + i) f c = (ps ! i, x)"
    and f: "f < count"
    and stop: "\<And>oc. x = Inl oc \<Longrightarrow> length ps = Suc i \<and> out = Some oc"
    and more: "\<And>f' c'. x = Inr (f', c') \<Longrightarrow>
           (Suc i < length ps \<and> sent (ps ! Suc i) = search_request t ot c' kw)
         \<or> (Suc i = length ps \<and> (out = None \<or> (out = Some Returned \<and> count \<le> f')))"
    by (rule search_loop_pageE) blast
  have null: "out = Some (Raised (InvalidResponseException JNull ''TikTok returned an invalid response.''))
            \<and> emitted (ps ! i) = [] \<and> length (calls ps) = Suc i"
    if r: "received (ps ! i) = Inr JNull"
    using search_page_null [OF sp r] stop by simp
  have absent: "emitted (ps ! i) = []
              \<and> (if reports_more (received (ps ! i))
                 then Suc i < length ps \<or> (Suc i = length ps \<and> out = None \<and> fuel = Suc i)
                 else Suc i = length ps \<and> out = Some Returned)"
    if r: "received (ps ! i) = Inr (JObj kvs)" and lf: "list_field ot = Some field"
      and no: "map_of kvs field = None"
  proof -
    note pi = page_items_absent [OF lf no]
    from search_page_emitted [OF sp] r pi have em: "emitted (ps ! i) = []" by simp
    show ?thesis
    proof (cases "reports_more (received (ps ! i))")
      case True
      from search_page_continues [OF sp r True] pi em
      obtain c' where x: "x = Inr (f, c')" by simp
      from more [OF x] f have "Suc i < length ps \<or> (Suc i = length ps \<and> out = None)" by auto
      with search_loop_running [of fuel mr t ot count kw 0 0 cursor ps] loop em True
      show ?thesis by auto
    next
      case False
      from search_page_returns [OF sp r False] pi have "x = Inl Returned" by simp
      from stop [OF this] em False show ?thesis by simp
    qed
  qed
  from null absent show ?thesis by blast
qed

theorem search_type_null_or_absent_list_witness:
  "Suc 0 < length (fst (search_type 5 null_second ''david teather'' ''user/full'' 15 (JInt 0) []))
   \<and> received (fst (search_type 5 null_second ''david teather'' ''user/full'' 15 (JInt 0) []) ! Suc 0)
        = Inr JNull
   \<and> snd (search_type 5 null_second ''david teather'' ''user/full'' 15 (JInt 0) [])
        = Some (Raised (InvalidResponseException JNull ''TikTok returned an invalid response.''))
   \<and> received (fst (search_type 5 listless_first ''david teather'' ''user/full'' 10 (JInt 0) []) ! 0)
        = Inr (JObj [(''has_more'', JBool True), (''cursor'', JInt 10)])
   \<and> list_field ''user/full'' = Some ''user_list''
   \<and> map_of [(''has_more'', JBool True), (''cursor'', JInt 10)] ''user_list'' = None
   \<and> emitted (fst (search_type 5 listless_first ''david teather'' ''user/full'' 10 (JInt 0) []) ! 0) = []
   \<and> Suc 0 < length (fst (search_type 5 listless_first ''david teather'' ''user/full'' 10 (JInt 0) []))"
proof -
  have i: "Suc 0 < length [a, b]" "0 < length [a, b]" for a b :: page by simp_all
  from search_type_null_or_absent_list [OF null_second_run i(1)]
    search_type_null_or_absent_list [OF listless_first_run i(2),
      of "[(''has_more'', JBool True), (''cursor'', JInt 10)]" "''user_list''"]
  show ?thesis
    by (simp add: null_second_run listless_first_run list_field_def)
qed

section \<open>C4: the transport answers None\<close>

text \<open>
  C4. In every session, if the answer to the \<open>i\<close>-th call is \<open>None\<close>, the generator raises
  \<open>InvalidResponseException\<close>; no item is yielded from that page, the call is the last
  one of the session, and the items of the session are those of the pages before it.
\<close>

theorem search_type_null_response:
  assumes "search_type fuel mr t ot count cursor kw = (ps, out)"
    and "i < length ps" and "received (ps ! i) = Inr JNull"
  shows "out = Some (Raised (InvalidResponseException JNull ''TikTok returned an invalid response.''))
       \<and> emitted (ps ! i) = []
       \<and> length (calls ps) = Suc i
       \<and> yielded ps = yielded (take i ps)"
proof -
  note loop = search_type_loop [OF assms(1)]
  from loop assms(2) obtain f c x where sp: "search_page mr t ot kw (0 + i) f c = (ps ! i, x)"
    and stop: "\<And>oc. x = Inl oc \<Longrightarrow> length ps = Suc i \<and> out = Some oc"
    by (rule search_loop_pageE) blast
  note null = search_page_null [OF sp assms(3)]
  from stop [OF null(1)] have len: "length ps = Suc i"
    and out: "out = Some (Raised (InvalidResponseException JNull ''TikTok returned an invalid response.''))"
    by simp_all
  from yielded_take_Suc [OF assms(2)] len null(2) have "yielded ps = yielded (take i ps)"
    by simp
  with len out null(2) show ?thesis by simp
qed

theorem search_type_null_response_witness:
  "Suc 0 < length (fst (search_type 5 null_second ''david teather'' ''user/full'' 15 (JInt 0) []))
   \<and> received (fst (search_type 5 null_second ''david teather'' ''user/full'' 15 (JInt 0) []) ! Suc 0)
        = Inr JNull
   \<and> snd (search_type 5 null_second ''david teather'' ''user/full'' 15 (JInt 0) [])
        = Some (Raised (InvalidResponseException JNull ''TikTok returned an invalid response.''))
   \<and> length (calls (fst (search_type 5 null_second ''david teather'' ''user/full'' 15 (JInt 0) []))) = 2
   \<and> length (yielded (fst (search_type 5 null_second ''david teather'' ''user/full'' 15 (JInt 0) []))) = 2"
proof -
  have i: "Suc 0 < length [a, b]" for a b :: page by simp
  from search_type_null_response [OF null_second_run i] show ?thesis
    by (simp add: null_second_run)
qed

section \<open>C5: a page that does not report has_more\<close>

text \<open>
  C5. In every session, a page whose answer does not report \<open>has_more\<close> (the field is
  false or absent) is the last call of the session, and the generator has ended; it
  has returned when the answer is a dictionary that decodes without an exception. In
  particular, with \<open>count > 0\<close> and at least one pass allowed, if the answer to the first
  request does not report \<open>has_more\<close>, the session makes exactly one call, whatever
  \<open>count\<close> is.
\<close>

theorem search_type_no_more:
  assumes "search_type fuel mr t ot count cursor kw = (ps, out)"
  shows "(i < length ps \<and> \<not> reports_more (received (ps ! i))
            \<longrightarrow> length (calls ps) = Suc i \<and> (\<exists>oc. out = Some oc))
       \<and> (i < length ps \<and> \<not> reports_more (received (ps ! i))
            \<and> received (ps ! i) = Inr (JObj kvs) \<and> snd (page_items ot (JObj kvs)) = None
            \<longrightarrow> out = Some Returned)
       \<and> (0 < count \<and> 0 < fuel \<and> \<not> reports_more (mr 0 (search_request t ot cursor kw))
            \<longrightarrow> length (calls ps) = 1 \<and> (\<exists>oc. out = Some oc))"
proof -
  note loop = search_type_loop [OF assms(1)]
  have ends: "length (calls ps) = Suc i \<and> (\<exists>oc. out = Some oc)"
    if i: "i < length ps" and nm: "\<not> reports_more (received (ps ! i))" for i
  proof -
    from loop i obtain f c x where sp: "search_page mr t ot kw (0 + i) f c = (ps ! i, x)"
      and stop: "\<And>oc. x = Inl oc \<Longrightarrow> length ps = Suc i \<and> out = Some oc"
      by (rule search_loop_pageE) blast
    from search_page_no_more [OF sp nm] stop show ?thesis by auto
  qed
  have returns: "out = Some Returned"
    if i: "i < length ps" and nm: "\<not> reports_more (received (ps ! i))"
      and r: "received (ps ! i) = Inr (JObj kvs)" and ok: "snd (page_items ot (JObj kvs)) = None"
  proof -
    from loop i obtain f c x where sp: "search_page mr t ot kw (0 + i) f c = (ps ! i, x)"
      and stop: "\<And>oc. x = Inl oc \<Longrightarrow> length ps = Suc i \<and> out = Some oc"
      by (rule search_loop_pageE) blast
    from search_page_returns [OF sp r nm ok] stop show ?thesis by auto
  qed
  have first: "length (calls ps) = 1 \<and> (\<exists>oc. out = Some oc)"
    if c: "0 < count" and fu: "0 < fuel"
      and nm: "\<not> reports_more (mr 0 (search_request t ot cursor kw))"
  proof -
    from fu obtain k where "fuel = Suc k" by (cases fuel) auto
    with loop c search_loop_nonempty [of k mr t ot count kw 0 0 cursor ps out]
    have ne: "ps \<noteq> []" by simp
    from search_loop_head [OF loop ne]
    obtain x where "search_page mr t ot kw 0 0 cursor = (hd ps, x)" by blast
    from search_page_received [OF this] ne
    have "received (ps ! 0) = mr 0 (search_request t ot cursor kw)" by (simp add: hd_conv_nth)
    with ends [of 0] ne nm show ?thesis by simp
  qed
  from ends returns first show ?thesis by blast
qed

theorem search_type_no_more_witness:
  "(0::nat) < length (fst (search_type 5 single_page ''david teather'' ''user/full'' 10 (JInt 0) []))
   \<and> \<not> reports_more (single_page 0 (search_request ''david teather'' ''user/full'' (JInt 0) []))
   \<and> (0::int) < 10 \<and> (0::nat) < 5
   \<and> snd (page_items ''user/full'' (JObj [(''user_list'', JList [one_user])])) = None
   \<and> length (calls (fst (search_type 5 single_page ''david teather'' ''user/full'' 10 (JInt 0) []))) = 1
   \<and> snd (search_type 5 single_page ''david teather'' ''user/full'' 10 (JInt 0) []) = Some Returned"
proof -
  have nm: "\<not> reports_more (single_page 0 r)" for r
    by (simp add: reports_more_def single_page_def)
  have ok: "snd (page_items ''user/full'' (JObj [(''user_list'', JList [one_user])])) = None"
    by (simp add: one_user_page_items)
  from search_type_no_more [OF single_page_run, of 0 "[(''user_list'', JList [one_user])]"] nm ok
  show ?thesis
    by (simp add: single_page_run single_page_def)
qed

section \<open>C6: user records with missing fields\<close>

lemma emit_all_each:
  "\<forall>r \<in> set rs. \<exists>it. mk r = Inr it \<Longrightarrow>
   snd (emit_all mk rs) = None \<and> map Inr (fst (emit_all mk rs)) = map mk rs"
  by (induction rs) (auto split: sum.splits prod.splits)

text \<open>
  Where the code agrees with C6: a record whose \<open>user_info\<close> is a dictionary gives a user
  reference with \<open>None\<close> for each identifier that \<open>user_info\<close> lacks, and a \<open>user_list\<close> of
  such records decodes, without an exception, to the reference of each record, in
  order.
\<close>

lemma user_ref_nested_missing:
  assumes "map_of kvs ''user_info'' = Some (JObj info)"
  shows "user_ref (JObj kvs) =
           Inr (UserRef (field_or_none info ''sec_uid'') (field_or_none info ''user_id'')
                  (field_or_none info ''unique_id''))"
    and "map_of info ''sec_uid'' = None \<Longrightarrow> field_or_none info ''sec_uid'' = JNull"
  using assms by (simp_all add: user_ref_info field_or_none_def)

lemma page_items_user_records:
  assumes "map_of resp ''user_list'' = Some (JList us)"
    and "\<forall>u \<in> set us. \<exists>kvs info. u = JObj kvs \<and> map_of kvs ''user_info'' = Some (JObj info)"
  shows "snd (page_items ''user/full'' (JObj resp)) = None"
    and "map Inr (fst (page_items ''user/full'' (JObj resp))) = map user_ref us"
proof -
  from assms(2) have "\<forall>u \<in> set us. \<exists>it. user_ref u = Inr it"
    by (auto simp: user_ref_info)
  from emit_all_each [OF this] assms(1)
  show "snd (page_items ''user/full'' (JObj resp)) = None"
    and "map Inr (fst (page_items ''user/full'' (JObj resp))) = map user_ref us"
    by (simp_all add: page_items_field emit_list_def)
qed

lemma partial_user_ref: "user_ref partial_user = Inr (UserRef JNull (JStr ''17'') JNull)"
  by (simp add: partial_user_def user_ref_def user_info_get_def)

text \<open>
  C6 asks that decoding a user record never fails for a missing nested field: a record
  in which the nested identifiers are absent gives a user reference with \<open>None\<close> in
  their place. The code does not do that when \<open>user_info\<close> itself is absent: for the
  record \<open>{}\<close>, \<open>user.get("user_info")\<close> is \<open>None\<close> and the \<open>.get("sec_uid")\<close> chained to it
  raises \<open>AttributeError\<close> (line 158). A page whose well-formed \<open>user_list\<close> holds that one
  record yields nothing, and the session ends with that exception after one call.
\<close>

theorem user_ref_missing_user_info:
  "user_ref (JObj []) = Inl AttributeError
   \<and> page_items ''user/full'' bare_record_page = ([], Some AttributeError)
   \<and> search_type 5 bare_records ''david teather'' ''user/full'' 10 (JInt 0) [] =
       ([\<lparr>sent = search_request ''david teather'' ''user/full'' (JInt 0) [],
          received = Inr bare_record_page, emitted = []\<rparr>],
        Some (Raised AttributeError))"
  by (simp add: search_type_def eval_nat_numeral search_page_def bare_records_def
        bare_record_page_def page_items_field emit_list_def user_ref_def user_info_get_def)

section \<open>C7: the parameters of a request\<close>

text \<open>
  C7. In every session of every kind, the parameters of every request are exactly
  \<open>keyword\<close>, the search term; \<open>cursor\<close>, the current cursor (the caller's for the first
  request, afterwards the one read from the answer before); \<open>from_page\<close>, the literal
  \<open>search\<close>; and \<open>web_search_code\<close>, always the same literal.
\<close>

theorem search_type_params:
  assumes "search_type fuel mr t ot count cursor kw = (ps, out)" and "i < length ps"
  shows "\<exists>c. params (sent (ps ! i)) =
               [(''keyword'', JStr t), (''cursor'', c), (''from_page'', JStr ''search''),
                (''web_search_code'', JStr web_search_code)]
            \<and> (i = 0 \<longrightarrow> c = cursor)
            \<and> (\<forall>j resp. i = Suc j \<and> received (ps ! j) = Inr resp
                 \<longrightarrow> dict_get resp ''cursor'' JNull = Inr c)"
proof -
  note loop = search_type_loop [OF assms(1)]
  from loop assms(2) obtain f c x where sp: "search_page mr t ot kw (0 + i) f c = (ps ! i, x)"
    and c0: "i = 0 \<Longrightarrow> c = cursor"
    by (rule search_loop_pageE) blast
  from search_page_sent [OF sp] have s: "sent (ps ! i) = search_request t ot c kw" .
  have prev: "dict_get resp ''cursor'' JNull = Inr c"
    if j: "i = Suc j" and r: "received (ps ! j) = Inr resp" for j resp
  proof -
    from j assms(2) have jl: "j < length ps" "Suc j < length ps" by simp_all
    from loop jl(1) obtain f0 c0 y where sj: "search_page mr t ot kw (0 + j) f0 c0 = (ps ! j, y)"
      and st: "\<And>oc. y = Inl oc \<Longrightarrow> length ps = Suc j \<and> out = Some oc"
      and mo: "\<And>f' c'. y = Inr (f', c') \<Longrightarrow>
           (Suc j < length ps \<and> sent (ps ! Suc j) = search_request t ot c' kw)
         \<or> (Suc j = length ps \<and> (out = None \<or> (out = Some Returned \<and> count \<le> f')))"
      by (rule search_loop_pageE) blast
    from st jl(2) obtain f' c' where y: "y = Inr (f', c')"
      by (cases y) auto
    from mo [OF y] jl(2) have "sent (ps ! Suc j) = search_request t ot c' kw" by auto
    with s j have "search_params t c = search_params t c'"
      by (simp add: search_request_def)
    then have cc: "c' = c" by (simp add: search_params_def)
    from search_page_more [OF sj [unfolded y]] r cc show ?thesis by auto
  qed
  from s c0 prev show ?thesis
    by (auto simp: search_params_def)
qed

theorem search_type_params_witness:
  "Suc 0 < length (fst (search_type 5 two_pages ''david teather'' ''user/full'' 15 (JInt 0) []))
   \<and> params (sent (fst (search_type 5 two_pages ''david teather'' ''user/full'' 15 (JInt 0) []) ! 0))
       = [(''keyword'', JStr ''david teather''), (''cursor'', JInt 0),
          (''from_page'', JStr ''search''), (''web_search_code'', JStr web_search_code)]
   \<and> params (sent (fst (search_type 5 two_pages ''david teather'' ''user/full'' 15 (JInt 0) []) ! Suc 0))
       = [(''keyword'', JStr ''david teather''), (''cursor'', JInt 10),
          (''from_page'', JStr ''search''), (''web_search_code'', JStr web_search_code)]"
proof -
  have i: "Suc 0 < length [a, b]" "0 < length [a, b]" for a b :: page by simp_all
  from search_type_params [OF two_pages_run i(1)] search_type_params [OF two_pages_run i(2)]
  show ?thesis
    by (auto simp: two_pages_run two_pages_def)
qed

section \<open>C8: the advisory of the general search\<close>

text \<open>What an entry point does when a keyword named \<open>obj_type\<close> is passed to it.\<close>

lemma entry_points_obj_type_keyword:
  assumes "map_of kw ''obj_type'' = Some v"
  shows "users fuel mr t count cursor kw = ([], Some (Raised TypeError))"
    and "general fuel mr t count cursor kw =
           ((if count > 9 then [general_warning] else []), [], Some (Raised TypeError))"
    and "keyword_suggestion fuel mr t count cursor kw = ([], Some (Raised TypeError))"
  using assms
  by (simp_all add: users_def general_def keyword_suggestion_def call_search_type_def)

text \<open>
  C8. A call of \<open>general\<close> with \<open>count > 9\<close> hands the advisory to the logger, once, and
  raises nothing for it. Everything else it does is the call of \<open>search_type\<close> for the
  kind \<open>general/full\<close> with the same arguments, which is what \<open>general\<close> does without the
  advisory; so, whenever that call binds its arguments (no keyword is named
  \<open>obj_type\<close>), its calls to the transport, the items it yields and the way it ends are
  those of \<open>search_type\<close>.
\<close>

theorem general_advisory:
  assumes "count > 9"
  shows "fst (general fuel mr t count cursor kw) = [general_warning]
       \<and> snd (general fuel mr t count cursor kw)
           = call_search_type fuel mr t ''general/full'' count cursor kw
       \<and> (map_of kw ''obj_type'' = None \<longrightarrow>
            calls (fst (snd (general fuel mr t count cursor kw)))
              = calls (fst (search_type fuel mr t ''general/full'' count cursor kw))
          \<and> yielded (fst (snd (general fuel mr t count cursor kw)))
              = yielded (fst (search_type fuel mr t ''general/full'' count cursor kw))
          \<and> snd (snd (general fuel mr t count cursor kw))
              = snd (search_type fuel mr t ''general/full'' count cursor kw))"
  using assms by (simp add: general_def call_search_type_def)

theorem general_advisory_witness:
  "(20::int) > 9
   \<and> map_of ([] :: (string \<times> json) list) ''obj_type'' = None
   \<and> fst (general 1 two_videos ''cats'' 20 (JInt 0) []) = [general_warning]
   \<and> yielded (fst (snd (general 1 two_videos ''cats'' 20 (JInt 0) []))) = [VideoRef, VideoRef]
   \<and> length (calls (fst (snd (general 1 two_videos ''cats'' 20 (JInt 0) [])))) = 1
   \<and> snd (snd (general 1 two_videos ''cats'' 20 (JInt 0) [])) = Some Returned"
proof -
  have gt: "(20::int) > 9" by simp
  from general_advisory [OF gt, of 1 two_videos "''cats''" "JInt 0" "[]"]
  show ?thesis
    by (simp add: call_search_type_def search_type_def search_page_def page_items_field
          emit_list_def video_ref_def two_videos_def)
qed

section \<open>C9: a count that is not positive\<close>

text \<open>
  C9. For every \<open>count \<le> 0\<close>, every kind and all keyword arguments, the session of
  \<open>search_type\<close> is empty: no call to the transport, no item, and the generator returns
  without an exception. This needs no pass of the loop: \<open>found < count\<close> is false from
  the start, and nothing checks \<open>count\<close> before. The three entry points make no call
  and yield no item either, and each returns without an exception (\<open>general\<close> having
  logged nothing) when its keyword arguments can be passed on to \<open>search_type\<close>, that
  is when none of them is named \<open>obj_type\<close>.
\<close>

theorem search_type_count_not_positive:
  assumes "count \<le> 0"
  shows "search_type fuel mr t ot count cursor kw = ([], Some Returned)
       \<and> calls (fst (search_type fuel mr t ot count cursor kw)) = []
       \<and> yielded (fst (search_type fuel mr t ot count cursor kw)) = []
       \<and> calls (fst (users fuel mr t count cursor kw)) = []
       \<and> yielded (fst (users fuel mr t count cursor kw)) = []
       \<and> calls (fst (snd (general fuel mr t count cursor kw))) = []
       \<and> yielded (fst (snd (general fuel mr t count cursor kw))) = []
       \<and> calls (fst (keyword_suggestion fuel mr t count cursor kw)) = []
       \<and> yielded (fst (keyword_suggestion fuel mr t count cursor kw)) = []
       \<and> (map_of kw ''obj_type'' = None \<longrightarrow>
            users fuel mr t count cursor kw = ([], Some Returned)
          \<and> general fuel mr t count cursor kw = ([], [], Some Returned)
          \<and> keyword_suggestion fuel mr t count cursor kw = ([], Some Returned))"
proof -
  have loop: "search_loop fuel mr t k count kw 0 0 cursor = ([], Some Returned)" for k
    using assms by (cases fuel) simp_all
  then have st: "search_type fuel mr t k count cursor kw = ([], Some Returned)" for k
    by (simp add: search_type_def)
  have call: "fst (call_search_type fuel mr t k count cursor kw) = []" for k
    by (simp add: call_search_type_def st split: option.splits)
  have bound: "call_search_type fuel mr t k count cursor kw = ([], Some Returned)"
    if "map_of kw ''obj_type'' = None" for k
    using that by (simp add: call_search_type_def st)
  from assms st call bound show ?thesis
    by (simp add: users_def general_def keyword_suggestion_def calls_def)
qed

theorem search_type_count_not_positive_witness:
  "(0::int) \<le> 0 \<and> (-3::int) \<le> 0
   \<and> map_of ([] :: (string \<times> json) list) ''obj_type'' = None
   \<and> search_type 0 endless_users ''david teather'' ''user/full'' 0 (JInt 0) [] = ([], Some Returned)
   \<and> users 5 endless_users ''david teather'' 0 (JInt 0) [] = ([], Some Returned)
   \<and> general 5 endless_users ''david teather'' (-3) (JInt 0) [] = ([], [], Some Returned)"
proof -
  have le: "(0::int) \<le> 0" "(-3::int) \<le> 0" by simp_all
  from search_type_count_not_positive [OF le(1), of 0 endless_users "''david teather''" "''user/full''" "JInt 0" "[]"]
    search_type_count_not_positive [OF le(1), of 5 endless_users "''david teather''" "''user/full''" "JInt 0" "[]"]
    search_type_count_not_positive [OF le(2), of 5 endless_users "''david teather''" "''user/full''" "JInt 0" "[]"]
  show ?thesis by simp
qed

section \<open>C10: has_more without a cursor\<close>

text \<open>
  C10. In every session, take a page whose answer is a dictionary that reports
  \<open>has_more\<close>, has no \<open>cursor\<close> field and decodes without an exception. The session does
  not fail there: either a next request follows, and its \<open>cursor\<close> parameter is \<open>None\<close>
  (not the previous cursor); or the page is the last one of the log because the passes
  allowed are used up; or the generator has returned because \<open>count\<close> items have been
  yielded.
\<close>

theorem search_type_missing_cursor:
  assumes "search_type fuel mr t ot count cursor kw = (ps, out)"
    and "i < length ps" and "received (ps ! i) = Inr (JObj kvs)"
    and "reports_more (received (ps ! i))" and "map_of kvs ''cursor'' = None"
    and "snd (page_items ot (JObj kvs)) = None"
  shows "(Suc i < length ps \<and> map_of (params (sent (ps ! Suc i))) ''cursor'' = Some JNull)
       \<or> (Suc i = length ps \<and> out = None \<and> fuel = Suc i)
       \<or> (Suc i = length ps \<and> out = Some Returned \<and> count \<le> int (length (yielded ps)))"
proof -
  note loop = search_type_loop [OF assms(1)]
  from loop assms(2) obtain f c x where sp: "search_page mr t ot kw (0 + i) f c = (ps ! i, x)"
    and f: "f = 0 + int (length (yielded (take i ps)))"
    and more: "\<And>f' c'. x = Inr (f', c') \<Longrightarrow>
           (Suc i < length ps \<and> sent (ps ! Suc i) = search_request t ot c' kw)
         \<or> (Suc i = length ps \<and> (out = None \<or> (out = Some Returned \<and> count \<le> f')))"
    by (rule search_loop_pageE) blast
  from search_page_continues [OF sp assms(3,4,6)] assms(5)
  have x: "x = Inr (f + int (length (emitted (ps ! i))), JNull)" by simp
  from more [OF x] consider
      (onward) "Suc i < length ps" "sent (ps ! Suc i) = search_request t ot JNull kw"
    | (spent) "Suc i = length ps" "out = None"
    | (reached) "Suc i = length ps" "out = Some Returned"
        "count \<le> f + int (length (emitted (ps ! i)))"
    by blast
  then show ?thesis
  proof cases
    case onward
    then show ?thesis by simp
  next
    case spent
    with search_loop_running [of fuel mr t ot count kw 0 0 cursor ps] loop show ?thesis by simp
  next
    case reached
    from yielded_take_Suc [OF assms(2)] reached(1) f
    have "f + int (length (emitted (ps ! i))) = int (length (yielded ps))" by simp
    with reached show ?thesis by simp
  qed
qed

theorem search_type_missing_cursor_witness:
  "(0::nat) < length (fst (search_type 5 no_cursor ''david teather'' ''user/full'' 2 (JInt 0) []))
   \<and> received (fst (search_type 5 no_cursor ''david teather'' ''user/full'' 2 (JInt 0) []) ! 0)
       = Inr (JObj [(''user_list'', JList [one_user]), (''has_more'', JBool True)])
   \<and> reports_more (Inr (JObj [(''user_list'', JList [one_user]), (''has_more'', JBool True)]))
   \<and> map_of [(''user_list'', JList [one_user]), (''has_more'', JBool True)] ''cursor'' = None
   \<and> snd (page_items ''user/full''
          (JObj [(''user_list'', JList [one_user]), (''has_more'', JBool True)])) = None
   \<and> Suc 0 < length (fst (search_type 5 no_cursor ''david teather'' ''user/full'' 2 (JInt 0) []))
   \<and> map_of (params (sent
         (fst (search_type 5 no_cursor ''david teather'' ''user/full'' 2 (JInt 0) []) ! Suc 0)))
         ''cursor'' = Some JNull"
proof -
  have i: "0 < length [a, b]" for a b :: page by simp
  have rm: "reports_more (Inr (JObj [(''user_list'', JList [one_user]), (''has_more'', JBool True)]))"
    by (simp add: reports_more_def)
  have nc: "map_of [(''user_list'', JList [one_user]), (''has_more'', JBool True)] ''cursor'' = None"
    by simp
  have ok: "snd (page_items ''user/full''
          (JObj [(''user_list'', JList [one_user]), (''has_more'', JBool True)])) = None"
    by (simp add: one_user_page_items)
  from search_type_missing_cursor [OF no_cursor_run i _ _ nc ok] rm nc ok
  show ?thesis
    by (simp add: no_cursor_run)
qed

end
